theory Spec2Isabelle
  imports Complex_Main "HOL-Library.Signed_Division"
begin

section \<open>Characters, strings and C integer arithmetic\<close>

text \<open>
  A \<^verbatim>\<open>std::string\<close> is a list of bytes. \<^verbatim>\<open>std::isdigit\<close> on an \<^verbatim>\<open>unsigned char\<close>
  holds exactly for the ten characters \<^verbatim>\<open>'0'\<close> .. \<^verbatim>\<open>'9'\<close> (codes 48 .. 57).
\<close>

definition isdigit :: "char \<Rightarrow> bool" where
  "isdigit c = (48 \<le> (of_char c :: nat) \<and> (of_char c :: nat) \<le> 57)"

text \<open>
  \<^verbatim>\<open>x[i]\<close> on a \<^verbatim>\<open>const std::string&\<close>: the character at \<^verbatim>\<open>i\<close>, and the null
  character at \<^verbatim>\<open>i == x.size()\<close>.
\<close>

definition char_at :: "string \<Rightarrow> nat \<Rightarrow> char" where
  "char_at x i = (if i < length x then x ! i else CHR 0x00)"

text \<open>
  A plain \<^verbatim>\<open>char\<close> promoted to \<^verbatim>\<open>int\<close> (signed, as g++ has it on x86-64), and the
  conversion \<^verbatim>\<open>char(k)\<close> of an \<^verbatim>\<open>int\<close> back to a \<^verbatim>\<open>char\<close> (the low eight bits).
  The \<^verbatim>\<open>int\<close> operators \<^verbatim>\<open>/\<close> and \<^verbatim>\<open>%\<close> of C++ truncate towards zero: they are
  \<open>sdiv\<close> and \<open>smod\<close>.
\<close>

definition char_int :: "char \<Rightarrow> int" where
  "char_int c = (if (of_char c :: int) < 128 then of_char c else of_char c - 256)"

definition int_char :: "int \<Rightarrow> char" where
  "int_char k = char_of k"

text \<open>
  \<^verbatim>\<open>operator<\<close> on \<^verbatim>\<open>std::string\<close>: lexicographic on the bytes read as unsigned, a
  proper prefix being smaller.
\<close>

fun string_less :: "string \<Rightarrow> string \<Rightarrow> bool" where
  "string_less [] [] = False"
| "string_less [] (y # ys) = True"
| "string_less (x # xs) [] = False"
| "string_less (x # xs) (y # ys) =
     (if (of_char x :: nat) < of_char y then True
      else if (of_char y :: nat) < of_char x then False
      else string_less xs ys)"

text \<open>
  \<^verbatim>\<open>x.find(c, pos)\<close>: the first index at or after \<^verbatim>\<open>pos\<close> that holds \<^verbatim>\<open>c\<close>, and
  \<^verbatim>\<open>npos\<close> (here \<open>None\<close>) when there is none.
\<close>

definition find_char :: "string \<Rightarrow> char \<Rightarrow> nat \<Rightarrow> nat option" where
  "find_char x c pos =
     (if c \<in> set (drop pos x)
      then Some (pos + length (takeWhile (\<lambda>d. d \<noteq> c) (drop pos x)))
      else None)"

section \<open>Utilities\<close>

text \<open>
  \<^verbatim>\<open>trim_leading_zeros\<close>: the loop advances \<^verbatim>\<open>i\<close> over zeros while at least two
  characters remain, then the first \<^verbatim>\<open>i\<close> characters are erased.
\<close>

function leading_zeros_loop :: "string \<Rightarrow> nat \<Rightarrow> nat" where
  "leading_zeros_loop s i =
     (if i + 1 < length s \<and> s ! i = CHR ''0'' then leading_zeros_loop s (i + 1) else i)"
  by pat_completeness auto
termination
  by (relation "measure (\<lambda>(s, i). length s - i)") auto

declare leading_zeros_loop.simps [simp del]

definition trim_leading_zeros :: "string \<Rightarrow> string" where
  "trim_leading_zeros s = (let i = leading_zeros_loop s 0 in if 0 < i then drop i s else s)"

text \<open>\<^verbatim>\<open>trim_trailing_zeros\<close>: pop the last character while it is a zero.\<close>

function trim_trailing_zeros :: "string \<Rightarrow> string" where
  "trim_trailing_zeros s =
     (if s \<noteq> [] \<and> last s = CHR ''0'' then trim_trailing_zeros (butlast s) else s)"
  by pat_completeness auto
termination
  by (relation "measure length") auto

declare trim_trailing_zeros.simps [simp del]

section \<open>Validation\<close>

text \<open>The two digit-skipping loops of the validator: advance while a digit is read.\<close>

function skip_digits :: "string \<Rightarrow> nat \<Rightarrow> nat" where
  "skip_digits x j =
     (if j < length x \<and> isdigit (x ! j) then skip_digits x (j + 1) else j)"
  by pat_completeness auto
termination
  by (relation "measure (\<lambda>(x, j). length x - j)") auto

declare skip_digits.simps [simp del]

definition is_valid_double_literal :: "string \<Rightarrow> bool" where
  "is_valid_double_literal x =
     (if x = [] then False
      else
        let sgn = (x ! 0 = CHR ''+'' \<or> x ! 0 = CHR ''-'');
            i = (if sgn then 1 else 0)
        in
          if sgn \<and> i = length x then False
          else if length x \<le> i \<or> \<not> isdigit (x ! i) then False
          else
            let j = skip_digits x i in
              if j = length x then True
              else if x ! j = CHR ''.'' then
                (let k = j + 1 in
                   if length x \<le> k then False
                   else if \<not> isdigit (x ! k) then False
                   else skip_digits x k = length x)
              else False)"

section \<open>BigDecimal\<close>

record BigDecimal =
  sign :: int
  intPart :: string
  fracPart :: string

definition isZero :: "BigDecimal \<Rightarrow> bool" where
  "isZero v = (intPart v = ''0'' \<and> fracPart v = [])"

text \<open>The default-constructed value: \<^verbatim>\<open>sign = +1\<close>, \<^verbatim>\<open>intPart = "0"\<close>, \<^verbatim>\<open>fracPart = ""\<close>.\<close>

definition zero_decimal :: BigDecimal where
  "zero_decimal = \<lparr>sign = 1, intPart = ''0'', fracPart = []\<rparr>"

definition parse_normalize :: "string \<Rightarrow> BigDecimal" where
  "parse_normalize x =
     (let c0 = char_at x 0;
          sg = (if c0 = CHR ''+'' then 1 else if c0 = CHR ''-'' then - 1 else 1);
          i = (if c0 = CHR ''+'' \<or> c0 = CHR ''-'' then 1 else 0);
          ip = (case find_char x CHR ''.'' i of
                  None \<Rightarrow> drop i x
                | Some dot \<Rightarrow> take (dot - i) (drop i x));
          fp = (case find_char x CHR ''.'' i of
                  None \<Rightarrow> []
                | Some dot \<Rightarrow> drop (dot + 1) x);
          ip' = trim_leading_zeros ip;
          fp' = trim_trailing_zeros fp
      in \<lparr>sign = (if ip' = ''0'' \<and> fp' = [] then 1 else sg), intPart = ip', fracPart = fp'\<rparr>)"

text \<open>
  \<^verbatim>\<open>align_frac\<close> pads the shorter fraction on the right with zeros; it changes both
  arguments in place, so the model returns the pair.
\<close>

definition align_frac :: "BigDecimal \<Rightarrow> BigDecimal \<Rightarrow> BigDecimal \<times> BigDecimal" where
  "align_frac a b =
     (let L = max (length (fracPart a)) (length (fracPart b))
      in (a\<lparr>fracPart := fracPart a @ replicate (L - length (fracPart a)) CHR ''0''\<rparr>,
          b\<lparr>fracPart := fracPart b @ replicate (L - length (fracPart b)) CHR ''0''\<rparr>))"

definition cmp_abs :: "BigDecimal \<Rightarrow> BigDecimal \<Rightarrow> int" where
  "cmp_abs a0 b0 =
     (let (a, b) = align_frac a0 b0 in
        if length (intPart a) \<noteq> length (intPart b)
        then (if length (intPart a) < length (intPart b) then - 1 else 1)
        else if intPart a \<noteq> intPart b
        then (if string_less (intPart a) (intPart b) then - 1 else 1)
        else if fracPart a \<noteq> fracPart b
        then (if string_less (fracPart a) (fracPart b) then - 1 else 1)
        else 0)"

text \<open>
  The four digit loops of \<^verbatim>\<open>add_abs\<close> and \<^verbatim>\<open>sub_abs\<close> are
  \<^verbatim>\<open>for (int i = static_cast<int>(size) - 1; i >= 0; --i)\<close>: the index is a 32-bit
  \<^verbatim>\<open>int\<close> obtained from the \<^verbatim>\<open>size_t\<close> size. \<open>size_to_int\<close> is that cast as g++ has it
  on x86-64: the size modulo \<open>2^32\<close>, read in two's complement. The loop then makes its
  passes at the indices \<open>size_to_int n - 1\<close> down to 0, which are \<open>loop_passes n\<close>
  passes: all \<open>n\<close> of them for a size below \<open>2^31\<close>, none when the cast is negative,
  and only the passes over the low indices when the size is \<open>2^32\<close> or more. (At a size
  of \<open>2^31\<close> modulo \<open>2^32\<close> the subtraction \<^verbatim>\<open>INT_MIN - 1\<close> overflows; the model
  takes its mathematical value, which is negative: no pass.)

  In \<open>add_loop\<close> and \<open>sub_loop\<close> the counter is \<^verbatim>\<open>i + 1\<close>, so \<open>Suc i\<close> is the pass
  at index \<^verbatim>\<open>i\<close>. Both loops of \<^verbatim>\<open>add_abs\<close> have the same body (as have both loops
  of \<^verbatim>\<open>sub_abs\<close>), and the carry (borrow) of the fractional pass enters the integer
  pass.
\<close>

definition size_to_int :: "nat \<Rightarrow> int" where
  "size_to_int n =
     (let k = int n mod 4294967296 in if k < 2147483648 then k else k - 4294967296)"

definition loop_passes :: "nat \<Rightarrow> nat" where
  "loop_passes n = nat (size_to_int n)"

fun add_loop :: "string \<Rightarrow> string \<Rightarrow> nat \<Rightarrow> string \<Rightarrow> int \<Rightarrow> string \<times> int" where
  "add_loop a b 0 r carry = (r, carry)"
| "add_loop a b (Suc i) r carry =
     (let da = char_int (a ! i) - char_int CHR ''0'';
          db = char_int (b ! i) - char_int CHR ''0'';
          s = da + db + carry
      in add_loop a b i (r[i := int_char (char_int CHR ''0'' + s smod 10)]) (s sdiv 10))"

fun sub_loop :: "string \<Rightarrow> string \<Rightarrow> nat \<Rightarrow> string \<Rightarrow> int \<Rightarrow> string \<times> int" where
  "sub_loop a b 0 r borrow = (r, borrow)"
| "sub_loop a b (Suc i) r borrow =
     (let da = char_int (a ! i) - char_int CHR ''0'' - borrow;
          db = char_int (b ! i) - char_int CHR ''0'';
          da' = (if da < db then da + 10 else da);
          borrow' = (if da < db then 1 else 0)
      in sub_loop a b i (r[i := int_char (char_int CHR ''0'' + (da' - db))]) borrow')"

text \<open>Left-padding of the shorter integer part, as both operations do it, in sequence.\<close>

definition pad_left :: "string \<Rightarrow> string \<Rightarrow> string" where
  "pad_left A B = (if length A < length B then replicate (length B - length A) CHR ''0'' @ A else A)"

definition add_abs :: "BigDecimal \<Rightarrow> BigDecimal \<Rightarrow> BigDecimal" where
  "add_abs a0 b0 =
     (let (a, b) = align_frac a0 b0;
          n = length (fracPart a);
          (rf, carry) =
            add_loop (fracPart a) (fracPart b) (loop_passes n) (replicate n CHR 0x00) 0;
          rf' = trim_trailing_zeros rf;
          A = pad_left (intPart a) (intPart b);
          B = pad_left (intPart b) A;
          (s, carry') =
            add_loop A B (loop_passes (length A)) (replicate (length A) CHR ''0'') carry;
          s' = (if carry' \<noteq> 0 then int_char (char_int CHR ''0'' + carry') # s else s)
      in \<lparr>sign = 1, intPart = trim_leading_zeros s', fracPart = rf'\<rparr>)"

definition sub_abs :: "BigDecimal \<Rightarrow> BigDecimal \<Rightarrow> BigDecimal" where
  "sub_abs a0 b0 =
     (let (a, b) = align_frac a0 b0;
          n = length (fracPart a);
          (rf, borrow) =
            sub_loop (fracPart a) (fracPart b) (loop_passes n) (replicate n CHR 0x00) 0;
          rf' = trim_trailing_zeros rf;
          A = pad_left (intPart a) (intPart b);
          B = pad_left (intPart b) A;
          (s, borrow') =
            sub_loop A B (loop_passes (length A)) (replicate (length A) CHR ''0'') borrow;
          s' = trim_leading_zeros s
      in if s' = ''0'' \<and> rf' = []
         then \<lparr>sign = 1, intPart = ''0'', fracPart = rf'\<rparr>
         else \<lparr>sign = 1, intPart = s', fracPart = rf'\<rparr>)"

text \<open>\<^verbatim>\<open>r.sign = s; if (r.isZero()) r.sign = +1;\<close> as the three branches of \<^verbatim>\<open>add_signed\<close> do.\<close>

definition with_sign :: "int \<Rightarrow> BigDecimal \<Rightarrow> BigDecimal" where
  "with_sign s r = (let r' = r\<lparr>sign := s\<rparr> in if isZero r' then r'\<lparr>sign := 1\<rparr> else r')"

definition add_signed :: "BigDecimal \<Rightarrow> BigDecimal \<Rightarrow> BigDecimal" where
  "add_signed a b =
     (if isZero a then b
      else if isZero b then a
      else if sign a = sign b then with_sign (sign a) (add_abs a b)
      else
        let cmp = cmp_abs a b in
          if cmp = 0 then \<lparr>sign = 1, intPart = ''0'', fracPart = []\<rparr>
          else if 0 < cmp then with_sign (sign a) (sub_abs a b)
          else with_sign (sign b) (sub_abs b a))"

definition to_string :: "BigDecimal \<Rightarrow> string" where
  "to_string x =
     (if isZero x then ''0''
      else (if sign x < 0 then ''-'' else []) @ intPart x @
           (if fracPart x \<noteq> [] then CHR ''.'' # fracPart x else []))"

section \<open>Numeric meaning and invariants\<close>

text \<open>
  The value of a digit string (most significant digit first), of a fractional digit
  string, and of a \<open>BigDecimal\<close>: the reference against which the string arithmetic
  is verified.
\<close>

definition digit_val :: "char \<Rightarrow> nat" where
  "digit_val c = of_char c - 48"

primrec digits_val :: "string \<Rightarrow> nat" where
  "digits_val [] = 0"
| "digits_val (c # cs) = digit_val c * 10 ^ length cs + digits_val cs"

definition frac_val :: "string \<Rightarrow> rat" where
  "frac_val f = of_nat (digits_val f) / 10 ^ length f"

definition magnitude :: "BigDecimal \<Rightarrow> rat" where
  "magnitude v = of_nat (digits_val (intPart v)) + frac_val (fracPart v)"

definition value_of :: "BigDecimal \<Rightarrow> rat" where
  "value_of v = of_int (sign v) * magnitude v"

text \<open>
  The invariants of a normalized \<open>BigDecimal\<close>, as the comments of the struct and
  section 3 of the specification give them.
\<close>

definition normalized :: "BigDecimal \<Rightarrow> bool" where
  "normalized v =
     ((sign v = 1 \<or> sign v = - 1) \<and>
      intPart v \<noteq> [] \<and> list_all isdigit (intPart v) \<and>
      (hd (intPart v) = CHR ''0'' \<longrightarrow> intPart v = ''0'') \<and>
      list_all isdigit (fracPart v) \<and>
      (fracPart v = [] \<or> last (fracPart v) \<noteq> CHR ''0'') \<and>
      (isZero v \<longrightarrow> sign v = 1))"


text \<open>
  The grammar of a literal in the words of the specification: an optional single sign,
  one or more digits, and optionally a dot followed by one or more digits.
\<close>

definition literal_grammar :: "string \<Rightarrow> bool" where
  "literal_grammar x =
     (\<exists>sg ds fs. x = sg @ ds @ fs \<and>
        (sg = [] \<or> sg = ''+'' \<or> sg = ''-'') \<and>
        ds \<noteq> [] \<and> list_all isdigit ds \<and>
        (fs = [] \<or> (\<exists>es. fs = CHR ''.'' # es \<and> es \<noteq> [] \<and> list_all isdigit es)))"


text \<open>
  The comparison of magnitudes in the words of section 4.3 of the specification: pad
  the fractions on the right to equal length; a longer integer part is greater; integer
  parts of equal length are compared lexicographically; a tie is broken by the
  lexicographic comparison of the padded fractions.
\<close>

definition lex_cmp :: "string \<Rightarrow> string \<Rightarrow> int" where
  "lex_cmp s t = (if s = t then 0 else if string_less s t then - 1 else 1)"

definition pad_right :: "string \<Rightarrow> nat \<Rightarrow> string" where
  "pad_right f L = f @ replicate (L - length f) CHR ''0''"

definition compareAbs_spec :: "BigDecimal \<Rightarrow> BigDecimal \<Rightarrow> int" where
  "compareAbs_spec a b =
     (let L = max (length (fracPart a)) (length (fracPart b)) in
        if length (intPart b) < length (intPart a) then 1
        else if length (intPart a) < length (intPart b) then - 1
        else if intPart a \<noteq> intPart b then lex_cmp (intPart a) (intPart b)
        else lex_cmp (pad_right (fracPart a) L) (pad_right (fracPart b) L))"

text \<open>Auxiliary list-level forms of the loops, used in the proofs.\<close>

fun strip_front :: "string \<Rightarrow> string" where
  "strip_front (c # d # cs) = (if c = CHR ''0'' then strip_front (d # cs) else c # d # cs)"
| "strip_front s = s"

definition dot_frac :: "string \<Rightarrow> string" where
  "dot_frac es = (if es = [] then [] else CHR ''.'' # es)"

definition valid_body :: "string \<Rightarrow> bool" where
  "valid_body y =
     (y \<noteq> [] \<and> isdigit (hd y) \<and>
      (let r = dropWhile isdigit y
       in r = [] \<or> (hd r = CHR ''.'' \<and> tl r \<noteq> [] \<and> list_all isdigit (tl r))))"

section \<open>Auxiliary facts\<close>

subsection \<open>Characters\<close>

lemma char_int_zero [simp]: "char_int CHR ''0'' = 48"
  by (simp add: char_int_def)


lemma digit_val_zero [simp]: "digit_val CHR ''0'' = 0"
  by (simp add: digit_val_def)

lemma isdigit_zero [simp]: "isdigit CHR ''0''"
  by (simp add: isdigit_def)

lemma not_isdigit_dot [simp]: "\<not> isdigit CHR ''.''"
  by (simp add: isdigit_def)

lemma not_isdigit_sign [simp]: "\<not> isdigit CHR ''+''" "\<not> isdigit CHR ''-''"
  by (simp_all add: isdigit_def)


lemma digit_val_le: "isdigit c \<Longrightarrow> digit_val c \<le> 9"
  by (auto simp: isdigit_def digit_val_def)

lemma of_char_zero_iff: "(of_char c :: nat) = 48 \<longleftrightarrow> c = CHR ''0''"
proof
  assume "(of_char c :: nat) = 48"
  then have "(of_char c :: nat) = of_char CHR ''0''" by simp
  then show "c = CHR ''0''" by (simp only: of_char_eq_iff)
qed simp

lemma digit_val_eq_0_iff: "isdigit c \<Longrightarrow> digit_val c = 0 \<longleftrightarrow> c = CHR ''0''"
  using of_char_zero_iff [of c] by (auto simp: isdigit_def digit_val_def)

lemma digit_val_inj: "isdigit c \<Longrightarrow> isdigit d \<Longrightarrow> digit_val c = digit_val d \<Longrightarrow> c = d"
proof -
  assume "isdigit c" "isdigit d" "digit_val c = digit_val d"
  then have "(of_char c :: nat) = of_char d"
    unfolding isdigit_def digit_val_def by linarith
  then show ?thesis by (simp only: of_char_eq_iff)
qed


subsection \<open>Values of digit strings\<close>

lemma digits_val_append:
  "digits_val (xs @ ys) = digits_val xs * 10 ^ length ys + digits_val ys"
  by (induction xs) (simp_all add: power_add algebra_simps)


lemma digits_val_replicate0 [simp]: "digits_val (replicate n CHR ''0'') = 0"
  by (induction n) simp_all

lemma digits_val_bound: "list_all isdigit s \<Longrightarrow> digits_val s < 10 ^ length s"
proof (induction s)
  case Nil
  show ?case by simp
next
  case (Cons c cs)
  then have d: "digit_val c \<le> 9" and IH: "digits_val cs < 10 ^ length cs"
    by (simp_all add: digit_val_le)
  have "digit_val c * 10 ^ length cs \<le> 9 * 10 ^ length cs" using d by simp
  with IH have "digit_val c * 10 ^ length cs + digits_val cs < 9 * 10 ^ length cs + 10 ^ length cs"
    by linarith
  then show ?case by simp
qed

lemma digits_val_lower:
  assumes "s \<noteq> []" "isdigit (hd s)" "hd s \<noteq> CHR ''0''"
  shows "10 ^ (length s - 1) \<le> digits_val s"
proof -
  obtain c cs where s: "s = c # cs" using assms(1) by (cases s) auto
  have "digit_val c \<noteq> 0" using assms(2,3) digit_val_eq_0_iff [of c] by (simp add: s)
  then have "1 * 10 ^ length cs \<le> digit_val c * 10 ^ length cs"
    by (intro mult_le_mono1) simp
  then have "10 ^ (length s - 1) \<le> digit_val c * 10 ^ length cs" by (simp add: s)
  also have "\<dots> \<le> digits_val s" by (simp add: s)
  finally show ?thesis .
qed

lemma lex_step:
  fixes a b r s K :: nat
  assumes "a < b" "r < K"
  shows "a * K + r < b * K + s"
proof -
  have "Suc a * K \<le> b * K" using assms(1) by (intro mult_le_mono1) simp
  then show ?thesis using assms(2) by simp
qed

lemma digits_val_inj:
  "length s = length t \<Longrightarrow> list_all isdigit s \<Longrightarrow> list_all isdigit t \<Longrightarrow>
   digits_val s = digits_val t \<Longrightarrow> s = t"
proof (induction s t rule: list_induct2)
  case Nil
  show ?case by simp
next
  case (Cons c cs d ds)
  have bc: "digits_val cs < 10 ^ length ds" using Cons.prems Cons.hyps digits_val_bound [of cs] by simp
  have bd: "digits_val ds < 10 ^ length ds" using Cons.prems digits_val_bound [of ds] by simp
  have eq: "digit_val c * 10 ^ length ds + digits_val cs = digit_val d * 10 ^ length ds + digits_val ds"
    using Cons.prems Cons.hyps by simp
  have "\<not> digit_val c < digit_val d" 
    using lex_step [of "digit_val c" "digit_val d" "digits_val cs" "10 ^ length ds" "digits_val ds"] bc eq
    by auto
  moreover have "\<not> digit_val d < digit_val c" 
    using lex_step [of "digit_val d" "digit_val c" "digits_val ds" "10 ^ length ds" "digits_val cs"] bd eq
    by auto
  ultimately have dd: "digit_val c = digit_val d" by simp
  then have "c = d" using Cons.prems digit_val_inj by simp
  moreover have "digits_val cs = digits_val ds" using eq dd by simp
  ultimately show ?case using Cons by simp
qed

lemma string_less_digits:
  "length s = length t \<Longrightarrow> list_all isdigit s \<Longrightarrow> list_all isdigit t \<Longrightarrow>
   string_less s t = (digits_val s < digits_val t)"
proof (induction s t rule: list_induct2)
  case Nil
  show ?case by simp
next
  case (Cons c cs d ds)
  have bc: "digits_val cs < 10 ^ length ds" using Cons.prems Cons.hyps digits_val_bound [of cs] by simp
  have bd: "digits_val ds < 10 ^ length ds" using Cons.prems digits_val_bound [of ds] by simp
  have IH: "string_less cs ds = (digits_val cs < digits_val ds)" using Cons by simp
  have dc: "digit_val c = of_char c - 48" "48 \<le> (of_char c :: nat)"
    and dd: "digit_val d = of_char d - 48" "48 \<le> (of_char d :: nat)"
    using Cons.prems by (simp_all add: digit_val_def isdigit_def)
  consider (lt) "(of_char c :: nat) < of_char d" | (gt) "(of_char d :: nat) < of_char c"
    | (eq) "(of_char c :: nat) = of_char d" by linarith
  then show ?case
  proof cases
    case lt
    then have "digit_val c < digit_val d" using dc dd by simp
    from lex_step [OF this bc, of "digits_val ds"] lt show ?thesis
      by (simp add: Cons.hyps)
  next
    case gt
    then have "digit_val d < digit_val c" using dc dd by simp
    from lex_step [OF this bd, of "digits_val cs"] gt show ?thesis
      by (simp add: Cons.hyps)
  next
    case eq
    then have "c = d" by (simp only: of_char_eq_iff)
    then show ?thesis using IH by (simp add: Cons.hyps)
  qed
qed

subsection \<open>Fraction values\<close>

lemma frac_val_Nil [simp]: "frac_val [] = 0"
  by (simp add: frac_val_def)

lemma frac_val_append_zeros [simp]: "frac_val (f @ replicate k CHR ''0'') = frac_val f"
  by (simp add: frac_val_def digits_val_append power_add)


lemma frac_val_nonneg: "0 \<le> frac_val f"
  by (simp add: frac_val_def)

lemma frac_val_less_1: "list_all isdigit f \<Longrightarrow> frac_val f < 1"
proof -
  assume "list_all isdigit f"
  then have "(of_nat (digits_val f) :: rat) < of_nat (10 ^ length f)"
    using digits_val_bound [of f] by (simp only: of_nat_less_iff)
  then show ?thesis by (simp add: frac_val_def)
qed

subsection \<open>Trimming\<close>

lemma leading_zeros_loop_drop:
  "i \<le> length s \<Longrightarrow> drop (leading_zeros_loop s i) s = strip_front (drop i s)"
proof (induction s i rule: leading_zeros_loop.induct)
  case (1 s i)
  show ?case
  proof (cases "i + 1 < length s \<and> s ! i = CHR ''0''")
    case True
    then have IH: "drop (leading_zeros_loop s (i + 1)) s = strip_front (drop (i + 1) s)"
      using 1 by simp
    from True obtain d cs where dr: "drop (Suc i) s = d # cs"
      by (cases "drop (Suc i) s") auto
    have "drop i s = s ! i # drop (Suc i) s"
      by (rule Cons_nth_drop_Suc [symmetric]) (use True in simp)
    then have "strip_front (drop i s) = strip_front (drop (i + 1) s)"
      using True dr by simp
    then show ?thesis using True IH by (subst leading_zeros_loop.simps) simp
  next
    case False
    have "strip_front (drop i s) = drop i s"
    proof (cases "drop i s")
      case Nil
      then show ?thesis by simp
    next
      case (Cons c r)
      show ?thesis
      proof (cases r)
        case Nil
        then show ?thesis using Cons by simp
      next
        case (Cons d r')
        have "length (drop i s) = Suc (Suc (length r'))"
          using \<open>drop i s = c # r\<close> Cons by simp
        then have lt: "i + 1 < length s" by simp
        then have "hd (drop i s) = s ! i" by (simp add: hd_drop_conv_nth)
        then have "c = s ! i" using \<open>drop i s = c # r\<close> by simp
        then have "c \<noteq> CHR ''0''" using False lt by simp
        then show ?thesis using \<open>drop i s = c # r\<close> Cons by simp
      qed
    qed
    then show ?thesis using False by (subst leading_zeros_loop.simps) auto
  qed
qed

lemma trim_leading_zeros_eq: "trim_leading_zeros s = strip_front s"
  using leading_zeros_loop_drop [of 0 s]
  by (auto simp: trim_leading_zeros_def Let_def)


lemma isdigit_strip_front: "list_all isdigit s \<Longrightarrow> list_all isdigit (strip_front s)"
  by (induction s rule: strip_front.induct) simp_all

lemma strip_front_nonempty: "s \<noteq> [] \<Longrightarrow> strip_front s \<noteq> []"
  by (induction s rule: strip_front.induct) simp_all

lemma strip_front_hd: "s \<noteq> [] \<Longrightarrow> hd (strip_front s) = CHR ''0'' \<Longrightarrow> strip_front s = ''0''"
  by (induction s rule: strip_front.induct) (simp_all split: if_splits)

lemma strip_front_id: "(hd s = CHR ''0'' \<longrightarrow> s = ''0'') \<Longrightarrow> strip_front s = s"
  by (induction s rule: strip_front.induct) simp_all


lemma isdigit_trim: "list_all isdigit s \<Longrightarrow> list_all isdigit (trim_trailing_zeros s)"
proof (induction s rule: trim_trailing_zeros.induct)
  case (1 s)
  show ?case
  proof (cases "s \<noteq> [] \<and> last s = CHR ''0''")
    case True
    have "list_all isdigit (butlast s)"
      using 1(2) by (auto simp: list_all_iff dest: in_set_butlastD)
    then show ?thesis using True 1(1) by (subst trim_trailing_zeros.simps) simp
  next
    case False
    then show ?thesis using 1(2) by (subst trim_trailing_zeros.simps) auto
  qed
qed

lemma trim_last: "trim_trailing_zeros s = [] \<or> last (trim_trailing_zeros s) \<noteq> CHR ''0''"
proof (induction s rule: trim_trailing_zeros.induct)
  case (1 s)
  show ?case
  proof (cases "s \<noteq> [] \<and> last s = CHR ''0''")
    case True
    then show ?thesis using 1 by (subst (1 2) trim_trailing_zeros.simps) simp
  next
    case False
    then show ?thesis by (subst (1 2) trim_trailing_zeros.simps) auto
  qed
qed

lemma trim_id: "s = [] \<or> last s \<noteq> CHR ''0'' \<Longrightarrow> trim_trailing_zeros s = s"
  by (subst trim_trailing_zeros.simps) auto

lemma trim_Nil [simp]: "trim_trailing_zeros [] = []"
  by (subst trim_trailing_zeros.simps) simp




subsection \<open>The validator recognises the grammar\<close>

lemma skip_digits_eq:
  "j \<le> length x \<Longrightarrow> skip_digits x j = j + length (takeWhile isdigit (drop j x))"
proof (induction x j rule: skip_digits.induct)
  case (1 x j)
  show ?case
  proof (cases "j < length x \<and> isdigit (x ! j)")
    case True
    have d: "drop j x = x ! j # drop (Suc j) x"
      by (rule Cons_nth_drop_Suc [symmetric]) (use True in simp)
    have "skip_digits x (j + 1) = j + 1 + length (takeWhile isdigit (drop (j + 1) x))"
      using 1 True by simp
    then show ?thesis using True d by (subst skip_digits.simps) simp
  next
    case False
    have "takeWhile isdigit (drop j x) = []"
    proof (cases "j < length x")
      case True
      have "drop j x = x ! j # drop (Suc j) x"
        by (rule Cons_nth_drop_Suc [symmetric]) (use True in simp)
      then show ?thesis using False True by simp
    next
      case False
      then show ?thesis by simp
    qed
    then show ?thesis using False by (subst skip_digits.simps) auto
  qed
qed

lemma takeWhile_length_all: "length (takeWhile P xs) = length xs \<longleftrightarrow> list_all P xs"
  by (induction xs) auto

lemma valid_body_Nil [simp]: "\<not> valid_body []"
  by (simp add: valid_body_def)

lemma validator_body:
  assumes "i \<le> length x"
  shows "(if length x \<le> i \<or> \<not> isdigit (x ! i) then False
          else
            let j = skip_digits x i in
              if j = length x then True
              else if x ! j = CHR ''.'' then
                (let k = j + 1 in
                   if length x \<le> k then False
                   else if \<not> isdigit (x ! k) then False
                   else skip_digits x k = length x)
              else False) = valid_body (drop i x)"
    (is "?L = ?R")
proof (cases "length x \<le> i")
  case True
  then show ?thesis by simp
next
  case False
  then have i: "i < length x" by simp
  define y where "y = drop i x"
  have hy: "hd y = x ! i" and yne: "y \<noteq> []"
    using i by (simp_all add: y_def hd_drop_conv_nth)
  show ?thesis
  proof (cases "isdigit (x ! i)")
    case False
    then have "\<not> ?L" by simp
    moreover have "\<not> ?R" using False hy by (simp add: valid_body_def y_def)
    ultimately show ?thesis by simp
  next
    case dig: True
    define m where "m = length (takeWhile isdigit y)"
    define r where "r = dropWhile isdigit y"
    have mle: "m \<le> length y" by (simp add: m_def length_takeWhile_le)
    have j: "skip_digits x i = i + m"
      using assms by (simp add: skip_digits_eq m_def y_def)
    have r: "r = drop (i + m) x"
      by (simp add: r_def m_def y_def dropWhile_eq_drop add.commute)
    have lr: "length r = length x - (i + m)" by (simp add: r)
    have jle: "i + m \<le> length x" using mle i by (simp add: y_def)
    have R: "?R = (r = [] \<or> (hd r = CHR ''.'' \<and> tl r \<noteq> [] \<and> list_all isdigit (tl r)))"
      using yne hy dig by (simp add: valid_body_def Let_def y_def r_def)
    show ?thesis
    proof (cases "i + m = length x")
      case True
      then have "r = []" using lr by simp
      moreover have "?L" using i dig j True by (simp add: Let_def)
      ultimately show ?thesis using R by simp
    next
      case False
      then have jl: "i + m < length x" using jle by simp
      then have rne: "r \<noteq> []" using lr by auto
      have hr: "hd r = x ! (i + m)" using jl by (simp add: r hd_drop_conv_nth)
      have tr: "tl r = drop (Suc (i + m)) x" by (simp add: r drop_Suc tl_drop)
      show ?thesis
      proof (cases "x ! (i + m) = CHR ''.''")
        case False
        then have "\<not> ?L" using i dig j jl by (simp add: Let_def)
        moreover have "\<not> ?R" using R rne hr False by simp
        ultimately show ?thesis by simp
      next
        case dot: True
        show ?thesis
        proof (cases "length x \<le> Suc (i + m)")
          case True
          then have "tl r = []" by (simp add: tr)
          then have "\<not> ?R" using R rne by simp
          moreover have "\<not> ?L" using i dig j jl dot True by (simp add: Let_def)
          ultimately show ?thesis by simp
        next
          case False
          then have k: "Suc (i + m) < length x" by simp
          have tne: "tl r \<noteq> []" using k by (simp add: tr)
          have hk: "x ! Suc (i + m) = hd (tl r)" using k by (simp add: tr hd_drop_conv_nth)
          have sk: "skip_digits x (Suc (i + m)) =
                    Suc (i + m) + length (takeWhile isdigit (tl r))"
            using k by (simp add: skip_digits_eq tr)
          have ltr: "length (tl r) = length x - Suc (i + m)" by (simp add: tr)
          have all: "(skip_digits x (Suc (i + m)) = length x) = list_all isdigit (tl r)"
            using sk ltr k takeWhile_length_all [of isdigit "tl r"] by auto
          have hd_dig: "list_all isdigit (tl r) \<Longrightarrow> isdigit (hd (tl r))"
            using tne by (cases "tl r") auto
          have "?L = list_all isdigit (tl r)"
            using i dig j jl dot k hk all hd_dig by (auto simp: Let_def)
          moreover have "?R = list_all isdigit (tl r)"
            using R rne hr dot tne by simp
          ultimately show ?thesis by simp
        qed
      qed
    qed
  qed
qed

lemma is_valid_iff_body:
  "is_valid_double_literal x \<longleftrightarrow>
   x \<noteq> [] \<and> valid_body (if hd x = CHR ''+'' \<or> hd x = CHR ''-'' then tl x else x)"
proof (cases x)
  case Nil
  then show ?thesis by (simp add: is_valid_double_literal_def)
next
  case (Cons c y)
  show ?thesis
  proof (cases "c = CHR ''+'' \<or> c = CHR ''-''")
    case True
    have s: "(x ! 0 = CHR ''+'' \<or> x ! 0 = CHR ''-'') = True" using Cons True by simp
    have le: "1 \<le> length x" using Cons by simp
    note b = validator_body [OF le, unfolded Let_def]
    have "is_valid_double_literal x =
          (if x = [] then False else if True \<and> 1 = length x then False else valid_body (drop 1 x))"
      unfolding is_valid_double_literal_def Let_def s if_True b ..
    then show ?thesis using Cons True by auto
  next
    case False
    have s: "(x ! 0 = CHR ''+'' \<or> x ! 0 = CHR ''-'') = False" using Cons False by simp
    have le: "0 \<le> length x" by simp
    note b = validator_body [OF le, unfolded Let_def]
    have "is_valid_double_literal x =
          (if x = [] then False else if False \<and> 0 = length x then False else valid_body (drop 0 x))"
      unfolding is_valid_double_literal_def Let_def s if_False b ..
    then show ?thesis using Cons False by auto
  qed
qed

lemma valid_body_iff:
  "valid_body y \<longleftrightarrow>
   (\<exists>ds fs. y = ds @ fs \<and> ds \<noteq> [] \<and> list_all isdigit ds \<and>
      (fs = [] \<or> (\<exists>es. fs = CHR ''.'' # es \<and> es \<noteq> [] \<and> list_all isdigit es)))"
proof
  assume v: "valid_body y"
  let ?ds = "takeWhile isdigit y" and ?fs = "dropWhile isdigit y"
  have "y = ?ds @ ?fs" by simp
  moreover have "?ds \<noteq> []" using v by (cases y) (auto simp: valid_body_def)
  moreover have "list_all isdigit ?ds" by (auto simp: list_all_iff dest: set_takeWhileD)
  moreover have "?fs = [] \<or> (\<exists>es. ?fs = CHR ''.'' # es \<and> es \<noteq> [] \<and> list_all isdigit es)"
  proof (cases "?fs")
    case Nil
    then show ?thesis by simp
  next
    case (Cons f es)
    then have "f = CHR ''.'' \<and> es \<noteq> [] \<and> list_all isdigit es"
      using v by (auto simp: valid_body_def Let_def list_all_iff)
    then show ?thesis using Cons by simp
  qed
  ultimately show "\<exists>ds fs. y = ds @ fs \<and> ds \<noteq> [] \<and> list_all isdigit ds \<and>
      (fs = [] \<or> (\<exists>es. fs = CHR ''.'' # es \<and> es \<noteq> [] \<and> list_all isdigit es))"
    by blast
next
  assume "\<exists>ds fs. y = ds @ fs \<and> ds \<noteq> [] \<and> list_all isdigit ds \<and>
      (fs = [] \<or> (\<exists>es. fs = CHR ''.'' # es \<and> es \<noteq> [] \<and> list_all isdigit es))"
  then obtain ds fs where y: "y = ds @ fs" and ds: "ds \<noteq> []" "list_all isdigit ds"
    and fs: "fs = [] \<or> (\<exists>es. fs = CHR ''.'' # es \<and> es \<noteq> [] \<and> list_all isdigit es)"
    by blast
  have all: "\<And>c. c \<in> set ds \<Longrightarrow> isdigit c" using ds(2) by (simp add: list_all_iff)
  have dw: "dropWhile isdigit y = dropWhile isdigit fs" using all by (simp add: y)
  have h: "isdigit (hd y)" using ds all by (cases ds) (auto simp: y)
  have yne: "y \<noteq> []" using ds by (simp add: y)
  from fs show "valid_body y"
  proof
    assume "fs = []"
    then show ?thesis using h yne dw by (simp add: valid_body_def)
  next
    assume "\<exists>es. fs = CHR ''.'' # es \<and> es \<noteq> [] \<and> list_all isdigit es"
    then obtain es where "fs = CHR ''.'' # es" "es \<noteq> []" "list_all isdigit es" by blast
    then show ?thesis using h yne dw by (simp add: valid_body_def)
  qed
qed

lemma is_valid_iff_grammar: "is_valid_double_literal x \<longleftrightarrow> literal_grammar x"
proof
  assume "is_valid_double_literal x"
  then have ne: "x \<noteq> []"
    and vb: "valid_body (if hd x = CHR ''+'' \<or> hd x = CHR ''-'' then tl x else x)"
    by (simp_all add: is_valid_iff_body)
  show "literal_grammar x"
  proof (cases "hd x = CHR ''+'' \<or> hd x = CHR ''-''")
    case True
    then have "valid_body (tl x)" using vb by simp
    then obtain ds fs where "tl x = ds @ fs" "ds \<noteq> []" "list_all isdigit ds"
      "fs = [] \<or> (\<exists>es. fs = CHR ''.'' # es \<and> es \<noteq> [] \<and> list_all isdigit es)"
      unfolding valid_body_iff by blast
    moreover have "x = [hd x] @ tl x" using ne by simp
    ultimately have "x = [hd x] @ ds @ fs \<and> ([hd x] = [] \<or> [hd x] = ''+'' \<or> [hd x] = ''-'') \<and>
        ds \<noteq> [] \<and> list_all isdigit ds \<and>
        (fs = [] \<or> (\<exists>es. fs = CHR ''.'' # es \<and> es \<noteq> [] \<and> list_all isdigit es))"
      using True by simp
    then show ?thesis unfolding literal_grammar_def by blast
  next
    case False
    then have "valid_body x" using vb by simp
    then obtain ds fs where "x = ds @ fs" "ds \<noteq> []" "list_all isdigit ds"
      "fs = [] \<or> (\<exists>es. fs = CHR ''.'' # es \<and> es \<noteq> [] \<and> list_all isdigit es)"
      unfolding valid_body_iff by blast
    then have "x = [] @ ds @ fs \<and> (([]::string) = [] \<or> [] = ''+'' \<or> [] = ''-'') \<and>
        ds \<noteq> [] \<and> list_all isdigit ds \<and>
        (fs = [] \<or> (\<exists>es. fs = CHR ''.'' # es \<and> es \<noteq> [] \<and> list_all isdigit es))"
      by simp
    then show ?thesis unfolding literal_grammar_def by blast
  qed
next
  assume "literal_grammar x"
  then obtain sg ds fs where x: "x = sg @ ds @ fs"
    and sg: "sg = [] \<or> sg = ''+'' \<or> sg = ''-''"
    and ds: "ds \<noteq> []" "list_all isdigit ds"
    and fs: "fs = [] \<or> (\<exists>es. fs = CHR ''.'' # es \<and> es \<noteq> [] \<and> list_all isdigit es)"
    unfolding literal_grammar_def by blast
  have vb: "valid_body (ds @ fs)" unfolding valid_body_iff using ds fs by blast
  obtain d ds' where dsc: "ds = d # ds'" using ds(1) by (cases ds) auto
  have "isdigit d" using ds(2) dsc by simp
  then have dns: "d \<noteq> CHR ''+''" "d \<noteq> CHR ''-''" by auto
  from sg show "is_valid_double_literal x"
  proof (elim disjE)
    assume "sg = []"
    then show ?thesis using vb dns by (simp add: is_valid_iff_body x dsc)
  next
    assume "sg = ''+''"
    then show ?thesis using vb by (simp add: is_valid_iff_body x)
  next
    assume "sg = ''-''"
    then show ?thesis using vb by (simp add: is_valid_iff_body x)
  qed
qed

subsection \<open>Parsing and formatting on the decomposed literal\<close>

lemma digits_no_dot: "list_all isdigit ds \<Longrightarrow> c \<in> set ds \<Longrightarrow> c \<noteq> CHR ''.''"
  by (auto simp: list_all_iff)

lemma takeWhile_dot: "list_all isdigit ds \<Longrightarrow>
  takeWhile (\<lambda>c. c \<noteq> CHR ''.'') (ds @ dot_frac es) = ds"
  using digits_no_dot [of ds] by (simp add: dot_frac_def)



lemma find_char_dot:
  assumes "list_all isdigit ds"
  shows "find_char (sg @ ds @ dot_frac es) CHR ''.'' (length sg) =
         (if es = [] then None else Some (length sg + length ds))"
proof -
  have "(CHR ''.'' \<in> set (ds @ dot_frac es)) = (es \<noteq> [])"
    using digits_no_dot [OF assms] by (auto simp: dot_frac_def)
  then show ?thesis using takeWhile_dot [OF assms, of es]
    by (simp add: find_char_def)
qed

lemma parse_decomp:
  assumes sg: "sg = [] \<or> sg = ''+'' \<or> sg = ''-''"
    and ds: "ds \<noteq> []" "list_all isdigit ds"
  shows "parse_normalize (sg @ ds @ dot_frac es) =
         \<lparr>sign = (if strip_front ds = ''0'' \<and> trim_trailing_zeros es = [] then 1
                  else if sg = ''-'' then - 1 else 1),
          intPart = strip_front ds, fracPart = trim_trailing_zeros es\<rparr>"
proof -
  define x where "x = sg @ ds @ dot_frac es"
  obtain d ds' where dsc: "ds = d # ds'" using ds(1) by (cases ds) auto
  have "isdigit d" using ds(2) dsc by simp
  then have dns: "d \<noteq> CHR ''+''" "d \<noteq> CHR ''-''" by auto
  have c0: "char_at x 0 = (if sg = [] then d else hd sg)"
    using sg by (auto simp: x_def char_at_def dsc)
  have i: "(if char_at x 0 = CHR ''+'' \<or> char_at x 0 = CHR ''-'' then 1 else 0) = length sg"
    using sg dns by (auto simp: c0)
  have sgn: "(if char_at x 0 = CHR ''+'' then 1 else if char_at x 0 = CHR ''-'' then - 1 else (1::int))
             = (if sg = ''-'' then - 1 else 1)"
    using sg dns by (auto simp: c0)
  have fc: "find_char x CHR ''.'' (length sg) = (if es = [] then None else Some (length sg + length ds))"
    unfolding x_def by (rule find_char_dot [OF ds(2)])
  have "parse_normalize x =
         \<lparr>sign = (if strip_front ds = ''0'' \<and> trim_trailing_zeros es = [] then 1
                  else if sg = ''-'' then - 1 else 1),
          intPart = strip_front ds, fracPart = trim_trailing_zeros es\<rparr>"
    unfolding parse_normalize_def Let_def i sgn fc
    by (cases "es = []") (simp_all add: x_def trim_leading_zeros_eq dot_frac_def)
  then show ?thesis by (simp only: x_def)
qed


lemma grammar_decomp:
  assumes "literal_grammar x"
  obtains sg ds es where "x = sg @ ds @ dot_frac es" "sg = [] \<or> sg = ''+'' \<or> sg = ''-''"
    "ds \<noteq> []" "list_all isdigit ds" "list_all isdigit es"
proof -
  from assms obtain sg ds fs where x: "x = sg @ ds @ fs"
    and sg: "sg = [] \<or> sg = ''+'' \<or> sg = ''-''"
    and ds: "ds \<noteq> []" "list_all isdigit ds"
    and fs: "fs = [] \<or> (\<exists>es. fs = CHR ''.'' # es \<and> es \<noteq> [] \<and> list_all isdigit es)"
    unfolding literal_grammar_def by blast
  from fs obtain es where "fs = dot_frac es" "list_all isdigit es"
  proof
    assume "fs = []"
    then have "fs = dot_frac []" "list_all isdigit []" by (simp_all add: dot_frac_def)
    then show ?thesis using that by blast
  next
    assume "\<exists>es. fs = CHR ''.'' # es \<and> es \<noteq> [] \<and> list_all isdigit es"
    then obtain es where "fs = CHR ''.'' # es" "es \<noteq> []" "list_all isdigit es" by blast
    then have "fs = dot_frac es" "list_all isdigit es" by (simp_all add: dot_frac_def)
    then show ?thesis using that by blast
  qed
  then show ?thesis using that x sg ds by blast
qed

lemma grammar_compose:
  assumes "sg = [] \<or> sg = ''+'' \<or> sg = ''-''" "ds \<noteq> []" "list_all isdigit ds" "list_all isdigit es"
  shows "literal_grammar (sg @ ds @ dot_frac es)"
proof -
  have "dot_frac es = [] \<or> (\<exists>es'. dot_frac es = CHR ''.'' # es' \<and> es' \<noteq> [] \<and> list_all isdigit es')"
    using assms(4) by (simp add: dot_frac_def)
  then show ?thesis unfolding literal_grammar_def using assms(1-3) by blast
qed

lemma normalized_mk:
  assumes "ds \<noteq> []" "list_all isdigit ds" "list_all isdigit es" "s = 1 \<or> s = - 1"
  shows "normalized \<lparr>sign = (if strip_front ds = ''0'' \<and> trim_trailing_zeros es = [] then 1 else s),
          intPart = strip_front ds, fracPart = trim_trailing_zeros es\<rparr>"
proof -
  let ?ip = "strip_front ds" and ?fp = "trim_trailing_zeros es"
  have 1: "?ip \<noteq> []" using assms(1) by (rule strip_front_nonempty)
  have 2: "list_all isdigit ?ip" using assms(2) by (rule isdigit_strip_front)
  have 3: "hd ?ip = CHR ''0'' \<longrightarrow> ?ip = ''0''" using strip_front_hd [OF assms(1)] by blast
  have 4: "list_all isdigit ?fp" using assms(3) by (rule isdigit_trim)
  have 5: "?fp = [] \<or> last ?fp \<noteq> CHR ''0''" by (rule trim_last)
  have 6: "(if ?ip = ''0'' \<and> ?fp = [] then 1 else s) = 1 \<or>
           (if ?ip = ''0'' \<and> ?fp = [] then 1 else s) = - 1"
    using assms(4) by simp
  have 7: "?ip = ''0'' \<and> ?fp = [] \<longrightarrow> (if ?ip = ''0'' \<and> ?fp = [] then 1 else s) = 1"
    by simp
  show ?thesis
    unfolding normalized_def isZero_def BigDecimal.select_convs
    using 1 2 3 4 5 6 7 by blast
qed

lemma parse_normalized:
  assumes "is_valid_double_literal x"
  shows "normalized (parse_normalize x)"
proof -
  from assms have "literal_grammar x" by (simp add: is_valid_iff_grammar)
  then obtain sg ds es where x: "x = sg @ ds @ dot_frac es"
    and sg: "sg = [] \<or> sg = ''+'' \<or> sg = ''-''"
    and ds: "ds \<noteq> []" "list_all isdigit ds" and es: "list_all isdigit es"
    by (rule grammar_decomp)
  have "(if sg = ''-'' then - 1 else 1) = (1::int) \<or> (if sg = ''-'' then - 1 else 1) = (- 1::int)"
    by simp
  from normalized_mk [OF ds es this] show ?thesis
    unfolding x parse_decomp [OF sg ds] .
qed




lemma normalizedD:
  assumes "normalized v"
  shows "sign v = 1 \<or> sign v = - 1" "intPart v \<noteq> []" "list_all isdigit (intPart v)"
    "hd (intPart v) = CHR ''0'' \<Longrightarrow> intPart v = ''0''" "list_all isdigit (fracPart v)"
    "fracPart v = [] \<or> last (fracPart v) \<noteq> CHR ''0''" "isZero v \<Longrightarrow> sign v = 1"
  using assms unfolding normalized_def by blast+

lemma to_string_decomp:
  assumes "normalized v"
  shows "to_string v = (if sign v = - 1 then ''-'' else []) @ intPart v @ dot_frac (fracPart v)"
proof (cases "isZero v")
  case True
  then have "sign v = 1" "intPart v = ''0''" "fracPart v = []"
    using normalizedD(7) [OF assms] by (simp_all add: isZero_def)
  then show ?thesis using True by (simp add: to_string_def dot_frac_def)
next
  case False
  from normalizedD(1) [OF assms] show ?thesis
  proof
    assume "sign v = 1"
    then show ?thesis using False by (simp add: to_string_def dot_frac_def)
  next
    assume "sign v = - 1"
    then show ?thesis using False by (simp add: to_string_def dot_frac_def)
  qed
qed

lemma parse_to_string:
  assumes "normalized v"
  shows "parse_normalize (to_string v) = v"
proof -
  have sg: "(if sign v = - 1 then ''-'' else []) = [] \<or> (if sign v = - 1 then ''-'' else []) = ''+''
      \<or> (if sign v = - 1 then ''-'' else []) = ''-''" by simp
  note d = normalizedD [OF assms]
  have ds: "intPart v \<noteq> []" "list_all isdigit (intPart v)" by (fact d)+
  have sf: "strip_front (intPart v) = intPart v"
    using d(4) by (intro strip_front_id) blast
  have tr: "trim_trailing_zeros (fracPart v) = fracPart v"
    using d(6) by (rule trim_id)
  have "parse_normalize (to_string v) =
        \<lparr>sign = (if intPart v = ''0'' \<and> fracPart v = [] then 1
                 else if (if sign v = - 1 then ''-'' else []) = ''-'' then - 1 else 1),
         intPart = intPart v, fracPart = fracPart v\<rparr>"
    unfolding to_string_decomp [OF assms] parse_decomp [OF sg ds] sf tr ..
  also have "\<dots> = v"
  proof (cases "isZero v")
    case True
    then have "sign v = 1" by (rule d(7))
    then show ?thesis using True by (intro BigDecimal.equality) (simp_all add: isZero_def)
  next
    case False
    from d(1) show ?thesis
    proof
      assume "sign v = 1"
      then show ?thesis using False by (intro BigDecimal.equality) (simp_all add: isZero_def)
    next
      assume "sign v = - 1"
      then show ?thesis using False by (intro BigDecimal.equality) (simp_all add: isZero_def)
    qed
  qed
  finally show ?thesis .
qed


lemma valid_to_string:
  assumes "normalized v"
  shows "is_valid_double_literal (to_string v)"
proof -
  have sg: "(if sign v = - 1 then ''-'' else []) = [] \<or> (if sign v = - 1 then ''-'' else []) = ''+''
      \<or> (if sign v = - 1 then ''-'' else []) = ''-''" by simp
  have ds: "intPart v \<noteq> []" "list_all isdigit (intPart v)" "list_all isdigit (fracPart v)"
    using normalizedD [OF assms] by blast+
  show ?thesis
    unfolding to_string_decomp [OF assms] is_valid_iff_grammar
    by (rule grammar_compose [OF sg ds])
qed

subsection \<open>The digit loops\<close>








subsection \<open>Magnitude arithmetic\<close>

lemma loop_passes_small: "n < 2147483648 \<Longrightarrow> loop_passes n = n"
  by (simp add: loop_passes_def size_to_int_def)

lemma loop_passes_0 [simp]: "loop_passes 0 = 0"
  by (simp add: loop_passes_small)

lemma loop_passes_1 [simp]: "loop_passes (Suc 0) = Suc 0"
  by (simp add: loop_passes_small)

lemma align_frac_eq:
  "align_frac a b =
    (\<lparr>sign = sign a, intPart = intPart a,
      fracPart = fracPart a @
        replicate (max (length (fracPart a)) (length (fracPart b)) - length (fracPart a)) CHR ''0''\<rparr>,
     \<lparr>sign = sign b, intPart = intPart b,
      fracPart = fracPart b @
        replicate (max (length (fracPart a)) (length (fracPart b)) - length (fracPart b)) CHR ''0''\<rparr>)"
  by (cases a, cases b) (simp add: align_frac_def Let_def)

lemma isdigit_zeros: "list_all isdigit (replicate k CHR ''0'')"
  by (induction k) simp_all

lemma pad_left_props:
  "length (pad_left A B) = max (length A) (length B)"
  "digits_val (pad_left A B) = digits_val A"
  "list_all isdigit A \<Longrightarrow> list_all isdigit (pad_left A B)"
  "A \<noteq> [] \<Longrightarrow> pad_left A B \<noteq> []"
proof -
  show "length (pad_left A B) = max (length A) (length B)" by (simp add: pad_left_def)
  show "digits_val (pad_left A B) = digits_val A" by (simp add: pad_left_def digits_val_append)
  show "list_all isdigit A \<Longrightarrow> list_all isdigit (pad_left A B)"
    by (simp add: pad_left_def isdigit_zeros)
  show "A \<noteq> [] \<Longrightarrow> pad_left A B \<noteq> []" by (simp add: pad_left_def)
qed





subsection \<open>Comparison of magnitudes\<close>

lemma int_len_less:
  assumes "normalized a" "normalized b" "length (intPart a) < length (intPart b)"
  shows "digits_val (intPart a) < digits_val (intPart b)"
proof -
  note da = normalizedD [OF assms(1)] and db = normalizedD [OF assms(2)]
  have "length (intPart b) \<noteq> 1" using assms(3) da(2) by (cases "intPart a") auto
  then have "intPart b \<noteq> ''0''" by auto
  then have h: "hd (intPart b) \<noteq> CHR ''0''" using db(4) by blast
  have hdd: "isdigit (hd (intPart b))" using db(2,3) by (cases "intPart b") auto
  have "digits_val (intPart a) < 10 ^ length (intPart a)"
    using da(3) by (rule digits_val_bound)
  also have "\<dots> \<le> 10 ^ (length (intPart b) - 1)"
    using assms(3) by (intro power_increasing) auto
  also have "\<dots> \<le> digits_val (intPart b)"
    using db(2) hdd h by (rule digits_val_lower)
  finally show ?thesis .
qed

lemma magnitude_less_int:
  assumes "list_all isdigit (fracPart a)" "digits_val (intPart a) < digits_val (intPart b)"
  shows "magnitude a < magnitude b"
proof -
  have "Suc (digits_val (intPart a)) \<le> digits_val (intPart b)" using assms(2) by simp
  then have "(of_nat (Suc (digits_val (intPart a))) :: rat) \<le> of_nat (digits_val (intPart b))"
    by (simp only: of_nat_le_iff)
  then have "(of_nat (digits_val (intPart a)) :: rat) + 1 \<le> of_nat (digits_val (intPart b))"
    by simp
  moreover have "frac_val (fracPart a) < 1" using assms(1) by (rule frac_val_less_1)
  moreover have "0 \<le> frac_val (fracPart b)" by (rule frac_val_nonneg)
  ultimately show ?thesis unfolding magnitude_def by linarith
qed

lemma cmp_abs_correct:
  assumes "normalized a" "normalized b"
  shows "cmp_abs a b =
         (if magnitude a < magnitude b then - 1 else if magnitude a = magnitude b then 0 else 1)"
proof -
  note da = normalizedD [OF assms(1)] and db = normalizedD [OF assms(2)]
  define L where "L = max (length (fracPart a)) (length (fracPart b))"
  define fa where "fa = fracPart a @ replicate (L - length (fracPart a)) CHR ''0''"
  define fb where "fb = fracPart b @ replicate (L - length (fracPart b)) CHR ''0''"
  have lfa: "length fa = L" and lfb: "length fb = L" by (simp_all add: fa_def fb_def L_def)
  have dfa: "list_all isdigit fa" and dfb: "list_all isdigit fb"
    using da(5) db(5) by (simp_all add: fa_def fb_def isdigit_zeros)
  have unf: "cmp_abs a b =
     (if length (intPart a) \<noteq> length (intPart b)
      then (if length (intPart a) < length (intPart b) then - 1 else 1)
      else if intPart a \<noteq> intPart b
      then (if string_less (intPart a) (intPart b) then - 1 else 1)
      else if fa \<noteq> fb
      then (if string_less fa fb then - 1 else 1)
      else 0)"
    unfolding cmp_abs_def align_frac_eq Let_def prod.case BigDecimal.select_convs
      L_def [symmetric] fa_def [symmetric] fb_def [symmetric] ..
  show ?thesis
  proof (cases "length (intPart a) = length (intPart b)")
    case False
    show ?thesis
    proof (cases "length (intPart a) < length (intPart b)")
      case True
      have "magnitude a < magnitude b"
        using da(5) int_len_less [OF assms True] by (rule magnitude_less_int)
      then show ?thesis unfolding unf using False True by simp
    next
      case gt: False
      then have "length (intPart b) < length (intPart a)" using False by simp
      then have "magnitude b < magnitude a"
        using db(5) int_len_less [OF assms(2,1)] by (intro magnitude_less_int)
      then show ?thesis unfolding unf using False gt by simp
    qed
  next
    case eqlen: True
    show ?thesis
    proof (cases "intPart a = intPart b")
      case False
      have sl: "string_less (intPart a) (intPart b) =
                (digits_val (intPart a) < digits_val (intPart b))"
        using eqlen da(3) db(3) by (rule string_less_digits)
      have ne: "digits_val (intPart a) \<noteq> digits_val (intPart b)"
        using digits_val_inj [OF eqlen da(3) db(3)] False by blast
      show ?thesis
      proof (cases "digits_val (intPart a) < digits_val (intPart b)")
        case True
        have "magnitude a < magnitude b" using da(5) True by (rule magnitude_less_int)
        then show ?thesis unfolding unf using eqlen False sl True by simp
      next
        case nlt: False
        then have "digits_val (intPart b) < digits_val (intPart a)" using ne by simp
        with db(5) have "magnitude b < magnitude a" by (rule magnitude_less_int)
        then show ?thesis unfolding unf using eqlen False sl nlt by simp
      qed
    next
      case eqi: True
      have fva: "frac_val (fracPart a) = of_nat (digits_val fa) / 10 ^ L"
        using frac_val_append_zeros [of "fracPart a" "L - length (fracPart a)"]
        by (simp add: fa_def [symmetric] frac_val_def [of fa] lfa)
      have fvb: "frac_val (fracPart b) = of_nat (digits_val fb) / 10 ^ L"
        using frac_val_append_zeros [of "fracPart b" "L - length (fracPart b)"]
        by (simp add: fb_def [symmetric] frac_val_def [of fb] lfb)
      have md: "magnitude a < magnitude b \<longleftrightarrow> digits_val fa < digits_val fb"
        unfolding magnitude_def eqi fva fvb by (simp add: divide_less_cancel)
      have me: "magnitude a = magnitude b \<longleftrightarrow> digits_val fa = digits_val fb"
        unfolding magnitude_def eqi fva fvb by simp
      show ?thesis
      proof (cases "fa = fb")
        case True
        then show ?thesis unfolding unf using eqlen eqi me by simp
      next
        case False
        have sl: "string_less fa fb = (digits_val fa < digits_val fb)"
          using lfa lfb dfa dfb by (intro string_less_digits) simp_all
        have ne: "digits_val fa \<noteq> digits_val fb"
          using digits_val_inj [of fa fb] lfa lfb dfa dfb False by auto
        show ?thesis unfolding unf using eqlen eqi False sl ne md me by simp
      qed
    qed
  qed
qed

subsection \<open>Signed addition\<close>






subsection \<open>Commutativity\<close>

lemma add_loop_commute: "add_loop a b n r c = add_loop b a n r c"
  by (induction n arbitrary: r c) (simp_all add: Let_def add.commute)

lemma pad_left_twice: "pad_left B (pad_left A B) = pad_left B A"
  by (auto simp: pad_left_def)

lemma add_abs_commute: "add_abs a b = add_abs b a"
proof -
  define L where "L = max (length (fracPart a)) (length (fracPart b))"
  have L': "max (length (fracPart b)) (length (fracPart a)) = L" by (simp add: L_def max.commute)
  define fa where "fa = fracPart a @ replicate (L - length (fracPart a)) CHR ''0''"
  define fb where "fb = fracPart b @ replicate (L - length (fracPart b)) CHR ''0''"
  define A where "A = pad_left (intPart a) (intPart b)"
  define B where "B = pad_left (intPart b) (intPart a)"
  have lAB: "length B = length A" by (simp add: A_def B_def pad_left_props max.commute)
  have pB: "pad_left (intPart b) A = B" unfolding A_def B_def by (rule pad_left_twice)
  have pA: "pad_left (intPart a) B = A" unfolding A_def B_def by (rule pad_left_twice)
  have 1: "add_abs a b =
     (case add_loop fa fb (loop_passes (length fa)) (replicate (length fa) CHR 0x00) 0 of
        (rf, carry) \<Rightarrow>
      case add_loop A B (loop_passes (length A)) (replicate (length A) CHR ''0'') carry of
        (s, carry') \<Rightarrow>
       \<lparr>sign = 1,
        intPart = trim_leading_zeros
          (if carry' \<noteq> 0 then int_char (char_int CHR ''0'' + carry') # s else s),
        fracPart = trim_trailing_zeros rf\<rparr>)"
    unfolding add_abs_def align_frac_eq Let_def prod.case BigDecimal.select_convs
      L_def [symmetric] fa_def [symmetric] fb_def [symmetric] A_def [symmetric] pB ..
  have 2: "add_abs b a =
     (case add_loop fb fa (loop_passes (length fb)) (replicate (length fb) CHR 0x00) 0 of
        (rf, carry) \<Rightarrow>
      case add_loop B A (loop_passes (length B)) (replicate (length B) CHR ''0'') carry of
        (s, carry') \<Rightarrow>
       \<lparr>sign = 1,
        intPart = trim_leading_zeros
          (if carry' \<noteq> 0 then int_char (char_int CHR ''0'' + carry') # s else s),
        fracPart = trim_trailing_zeros rf\<rparr>)"
    unfolding add_abs_def align_frac_eq Let_def prod.case BigDecimal.select_convs
      L' fa_def [symmetric] fb_def [symmetric] B_def [symmetric] pA ..
  have lf: "length fb = length fa" by (simp add: fa_def fb_def L_def)
  show ?thesis unfolding 1 2 lf lAB add_loop_commute [of fb fa] add_loop_commute [of B A] ..
qed

lemma add_signed_commute:
  assumes "normalized a" "normalized b"
  shows "add_signed a b = add_signed b a"
proof -
  note da = normalizedD [OF assms(1)] and db = normalizedD [OF assms(2)]
  show ?thesis
  proof (cases "isZero a")
    case za: True
    show ?thesis
    proof (cases "isZero b")
      case True
      have "a = b" using za True da(7) db(7)
        by (intro BigDecimal.equality) (simp_all add: isZero_def)
      then show ?thesis by simp
    next
      case False
      then show ?thesis using za by (simp add: add_signed_def)
    qed
  next
    case nza: False
    show ?thesis
    proof (cases "isZero b")
      case True
      then show ?thesis using nza by (simp add: add_signed_def)
    next
      case nzb: False
      show ?thesis
      proof (cases "sign a = sign b")
        case True
        then show ?thesis using nza nzb by (simp add: add_signed_def add_abs_commute [of a b])
      next
        case False
        have c1: "cmp_abs a b =
           (if magnitude a < magnitude b then - 1 else if magnitude a = magnitude b then 0 else 1)"
          using assms by (rule cmp_abs_correct)
        have c2: "cmp_abs b a =
           (if magnitude b < magnitude a then - 1 else if magnitude b = magnitude a then 0 else 1)"
          using assms(2,1) by (rule cmp_abs_correct)
        consider (lt) "magnitude a < magnitude b" | (eq) "magnitude a = magnitude b"
          | (gt) "magnitude b < magnitude a" by linarith
        then show ?thesis
        proof cases
          case lt
          then show ?thesis using nza nzb False c1 c2 by (simp add: add_signed_def)
        next
          case eq
          then show ?thesis using nza nzb False c1 c2 by (simp add: add_signed_def)
        next
          case gt
          then show ?thesis using nza nzb False c1 c2 by (simp add: add_signed_def)
        qed
      qed
    qed
  qed
qed

subsection \<open>Zero\<close>




lemma abs_value_of: "normalized v \<Longrightarrow> \<bar>value_of v\<bar> = magnitude v"
proof -
  assume n: "normalized v"
  have "0 \<le> magnitude v" unfolding magnitude_def using frac_val_nonneg [of "fracPart v"] by simp
  then show ?thesis using normalizedD(1) [OF n] by (auto simp: value_of_def abs_mult)
qed


subsection \<open>Uniqueness of the normalized form\<close>





subsection \<open>Integer literals\<close>

lemma cmp_abs_spec: "cmp_abs a b = compareAbs_spec a b"
  by (simp add: cmp_abs_def align_frac_eq compareAbs_spec_def lex_cmp_def pad_right_def Let_def)





subsection \<open>Sizes beyond the range of the loop index\<close>




lemma isdigit_one [simp]: "isdigit CHR ''1''"
  by (simp add: isdigit_def)

lemma not_isdigit_nul [simp]: "\<not> isdigit CHR 0x00"
  by (simp add: isdigit_def)

lemma digits_val_nul [simp]: "digits_val (replicate n CHR 0x00) = 0"
  by (induction n) (simp_all add: digit_val_def)

lemma trim_nul [simp]: "trim_trailing_zeros (replicate n CHR 0x00) = replicate n CHR 0x00"
  by (rule trim_id) (cases "n = 0", simp_all)

lemma trim_ones [simp]: "trim_trailing_zeros (replicate n CHR ''1'') = replicate n CHR ''1''"
  by (rule trim_id) (cases "n = 0", simp_all)












subsection \<open>Sums and differences at a size beyond the index range\<close>






section \<open>The claims\<close>




text \<open>
  Claim C2 states that the sum of \<open>+0001.0\<close> and \<open>-0001.005\<close> prints as \<open>-1.005\<close>.
  It does not: \<open>-1.005\<close> is the second operand, and \<open>1 - 1.005 = -0.005\<close>.
\<close>

theorem end_to_end_counterexample:
  "to_string (add_signed (parse_normalize ''+0001.0'') (parse_normalize ''-0001.005'')) \<noteq> ''-1.005''"
  by code_simp

text \<open>
  Claim C2, amended. Both tokens \<open>+0001.0\<close> and \<open>-0001.005\<close> pass the validator, they
  normalise to \<open>1\<close> and \<open>-1.005\<close>, and their sum prints as \<open>-0.005\<close>.
\<close>

theorem end_to_end_scenario:
  "is_valid_double_literal ''+0001.0'' \<and> is_valid_double_literal ''-0001.005'' \<and>
   parse_normalize ''+0001.0'' = \<lparr>sign = 1, intPart = ''1'', fracPart = []\<rparr> \<and>
   to_string (parse_normalize ''+0001.0'') = ''1'' \<and>
   parse_normalize ''-0001.005'' = \<lparr>sign = - 1, intPart = ''1'', fracPart = ''005''\<rparr> \<and>
   to_string (parse_normalize ''-0001.005'') = ''-1.005'' \<and>
   to_string (add_signed (parse_normalize ''+0001.0'') (parse_normalize ''-0001.005'')) = ''-0.005''"
  by (intro conjI; code_simp)

text \<open>
  Claim C3. \<open>is_valid_double_literal x\<close> holds exactly when \<open>x\<close> is an optional single
  sign, one or more digits and, optionally, a dot followed by one or more digits
  (\<open>literal_grammar\<close>); the five listed literals are accepted and the eight listed
  strings are rejected.
\<close>

theorem validator_grammar:
  "(is_valid_double_literal x \<longleftrightarrow> literal_grammar x) \<and>
   is_valid_double_literal ''1'' \<and> is_valid_double_literal ''1.0'' \<and>
   is_valid_double_literal ''+1.0'' \<and> is_valid_double_literal ''+0001.0'' \<and>
   is_valid_double_literal ''-0001.005'' \<and>
   \<not> is_valid_double_literal ''A'' \<and> \<not> is_valid_double_literal ''+-1'' \<and>
   \<not> is_valid_double_literal ''-5.'' \<and> \<not> is_valid_double_literal ''-.5'' \<and>
   \<not> is_valid_double_literal ''-5.-5'' \<and> \<not> is_valid_double_literal [] \<and>
   \<not> is_valid_double_literal ''+'' \<and> \<not> is_valid_double_literal ''1..2''"
  by (intro conjI is_valid_iff_grammar; code_simp)

theorem validator_grammar_witness:
  "literal_grammar ''-0001.005'' \<and> \<not> literal_grammar ''-5.''"
proof -
  have "is_valid_double_literal ''-0001.005''" and "\<not> is_valid_double_literal ''-5.''"
    by code_simp+
  then show ?thesis
    using validator_grammar [of "''-0001.005''"] validator_grammar [of "''-5.''"] by blast
qed

text \<open>
  Claim C4. Signed addition of the parsed values of two valid literals is commutative.
\<close>

theorem add_signed_commutative:
  "is_valid_double_literal a \<Longrightarrow> is_valid_double_literal b \<Longrightarrow>
   add_signed (parse_normalize a) (parse_normalize b) =
   add_signed (parse_normalize b) (parse_normalize a)"
  by (intro add_signed_commute parse_normalized)

theorem add_signed_commutative_witness:
  "is_valid_double_literal ''-12.5'' \<and> is_valid_double_literal ''+3.75'' \<and>
   add_signed (parse_normalize ''-12.5'') (parse_normalize ''+3.75'') =
   add_signed (parse_normalize ''+3.75'') (parse_normalize ''-12.5'')"
proof -
  have v1: "is_valid_double_literal ''-12.5''" and v2: "is_valid_double_literal ''+3.75''"
    by code_simp+
  from add_signed_commutative [OF v1 v2] v1 v2 show ?thesis by blast
qed

text \<open>
  Claim C5. Adding the parsed literal \<open>0\<close> to the parsed value of a valid literal gives
  that value back. More generally, with canonical zero as the first operand the second is
  returned as it is, and with canonical zero as the second operand the first is returned
  as it is; the latter for every first operand that is not a zero with a sign other than
  \<open>+1\<close>, hence for every normalized value.
\<close>

theorem add_signed_identity:
  "(is_valid_double_literal x \<longrightarrow>
      add_signed (parse_normalize x) (parse_normalize ''0'') = parse_normalize x) \<and>
   parse_normalize ''0'' = zero_decimal \<and>
   add_signed zero_decimal b = b \<and>
   ((isZero a \<longrightarrow> sign a = 1) \<longrightarrow> add_signed a zero_decimal = a)"
proof (intro conjI impI)
  have z: "isZero zero_decimal" by (simp add: isZero_def zero_decimal_def)
  have p0: "parse_normalize ''0'' = zero_decimal" by code_simp
  show "parse_normalize ''0'' = zero_decimal" by (rule p0)
  show "add_signed zero_decimal b = b" using z by (simp add: add_signed_def)
  have r: "add_signed a zero_decimal = a" if "isZero a \<longrightarrow> sign a = 1" for a
  proof (cases "isZero a")
    case True
    then have "a = zero_decimal" using that
      by (intro BigDecimal.equality) (simp_all add: isZero_def zero_decimal_def)
    then show ?thesis using z by (simp add: add_signed_def)
  next
    case False
    then show ?thesis using z by (simp add: add_signed_def)
  qed
  show "add_signed a zero_decimal = a" if "isZero a \<longrightarrow> sign a = 1" using that by (rule r)
  show "add_signed (parse_normalize x) (parse_normalize ''0'') = parse_normalize x"
    if "is_valid_double_literal x"
    unfolding p0 using normalizedD(7) [OF parse_normalized [OF that]] by (intro r) blast
qed

theorem add_signed_identity_witness:
  "is_valid_double_literal ''-7.250'' \<and>
   add_signed (parse_normalize ''-7.250'') (parse_normalize ''0'') = parse_normalize ''-7.250'' \<and>
   \<not> isZero \<lparr>sign = - 1, intPart = ''3'', fracPart = ''5''\<rparr> \<and>
   add_signed \<lparr>sign = - 1, intPart = ''3'', fracPart = ''5''\<rparr> zero_decimal =
     \<lparr>sign = - 1, intPart = ''3'', fracPart = ''5''\<rparr> \<and>
   add_signed zero_decimal \<lparr>sign = - 1, intPart = ''3'', fracPart = ''5''\<rparr> =
     \<lparr>sign = - 1, intPart = ''3'', fracPart = ''5''\<rparr>"
proof -
  have v: "is_valid_double_literal ''-7.250''" by code_simp
  have 1: "add_signed (parse_normalize ''-7.250'') (parse_normalize ''0'') = parse_normalize ''-7.250''"
    using add_signed_identity [of "''-7.250''"] v by blast
  have nz: "\<not> isZero \<lparr>sign = - 1, intPart = ''3'', fracPart = ''5''\<rparr>" by (simp add: isZero_def)
  have 2: "add_signed \<lparr>sign = - 1, intPart = ''3'', fracPart = ''5''\<rparr> zero_decimal =
     \<lparr>sign = - 1, intPart = ''3'', fracPart = ''5''\<rparr>"
    using add_signed_identity [of _ _ "\<lparr>sign = - 1, intPart = ''3'', fracPart = ''5''\<rparr>"] nz by blast
  have 3: "add_signed zero_decimal \<lparr>sign = - 1, intPart = ''3'', fracPart = ''5''\<rparr> =
     \<lparr>sign = - 1, intPart = ''3'', fracPart = ''5''\<rparr>"
    using add_signed_identity [of _ "\<lparr>sign = - 1, intPart = ''3'', fracPart = ''5''\<rparr>"] by blast
  show ?thesis using v 1 nz 2 3 by blast
qed







text \<open>
  Claim C8. For normalized \<open>a\<close> and \<open>b\<close>, \<open>cmp_abs a b\<close> is \<open>-1\<close>, \<open>0\<close> or \<open>1\<close> as
  \<open>\<bar>a\<bar>\<close> is less than, equal to or greater than \<open>\<bar>b\<bar>\<close>; and for all operands it is
  the three-tier comparison of the specification (\<open>compareAbs_spec\<close>).
\<close>

theorem cmp_abs_numeric:
  "(normalized a \<and> normalized b \<longrightarrow>
      cmp_abs a b =
        (if \<bar>value_of a\<bar> < \<bar>value_of b\<bar> then - 1
         else if \<bar>value_of a\<bar> = \<bar>value_of b\<bar> then 0 else 1)) \<and>
   cmp_abs c d = compareAbs_spec c d"
proof (intro conjI impI)
  show "cmp_abs c d = compareAbs_spec c d" by (rule cmp_abs_spec)
  assume "normalized a \<and> normalized b"
  then have n: "normalized a" "normalized b" by blast+
  show "cmp_abs a b =
        (if \<bar>value_of a\<bar> < \<bar>value_of b\<bar> then - 1
         else if \<bar>value_of a\<bar> = \<bar>value_of b\<bar> then 0 else 1)"
    unfolding abs_value_of [OF n(1)] abs_value_of [OF n(2)] using n by (rule cmp_abs_correct)
qed

theorem cmp_abs_numeric_witness:
  "normalized \<lparr>sign = - 1, intPart = ''9'', fracPart = ''75''\<rparr> \<and>
   normalized \<lparr>sign = 1, intPart = ''10'', fracPart = []\<rparr> \<and>
   \<bar>value_of \<lparr>sign = - 1, intPart = ''9'', fracPart = ''75''\<rparr>\<bar> <
     \<bar>value_of \<lparr>sign = 1, intPart = ''10'', fracPart = []\<rparr>\<bar> \<and>
   cmp_abs \<lparr>sign = - 1, intPart = ''9'', fracPart = ''75''\<rparr>
           \<lparr>sign = 1, intPart = ''10'', fracPart = []\<rparr> = - 1"
proof -
  let ?a = "\<lparr>sign = - 1, intPart = ''9'', fracPart = ''75''\<rparr>"
  let ?b = "\<lparr>sign = 1, intPart = ''10'', fracPart = []\<rparr>"
  have na: "normalized ?a" and nb: "normalized ?b" by code_simp+
  have lt: "\<bar>value_of ?a\<bar> < \<bar>value_of ?b\<bar>" by code_simp
  have "cmp_abs ?a ?b =
        (if \<bar>value_of ?a\<bar> < \<bar>value_of ?b\<bar> then - 1
         else if \<bar>value_of ?a\<bar> = \<bar>value_of ?b\<bar> then 0 else 1)"
    using cmp_abs_numeric [of ?a ?b] na nb by blast
  then have "cmp_abs ?a ?b = - 1" using lt by (simp only: if_True)
  then show ?thesis using na nb lt by blast
qed




text \<open>
  Claim C10. For a normalized \<open>v\<close>, \<open>to_string v\<close> is a valid literal and parsing it
  gives \<open>v\<close> back; so \<open>to_string\<close> is injective on normalized values, and printing the
  parsed value of a valid literal is idempotent.
\<close>

theorem parse_format_roundtrip:
  "(normalized v \<longrightarrow>
      is_valid_double_literal (to_string v) \<and> parse_normalize (to_string v) = v) \<and>
   (normalized u \<and> normalized w \<and> to_string u = to_string w \<longrightarrow> u = w) \<and>
   (is_valid_double_literal x \<longrightarrow>
      to_string (parse_normalize (to_string (parse_normalize x))) = to_string (parse_normalize x))"
proof (intro conjI impI)
  show "is_valid_double_literal (to_string v)" if "normalized v" using that by (rule valid_to_string)
  show "parse_normalize (to_string v) = v" if "normalized v" using that by (rule parse_to_string)
  show "u = w" if "normalized u \<and> normalized w \<and> to_string u = to_string w"
    using parse_to_string [of u] parse_to_string [of w] that by metis
  show "to_string (parse_normalize (to_string (parse_normalize x))) = to_string (parse_normalize x)"
    if "is_valid_double_literal x"
    using parse_to_string [OF parse_normalized [OF that]] by simp
qed

theorem parse_format_roundtrip_witness:
  "normalized \<lparr>sign = - 1, intPart = ''0'', fracPart = ''005''\<rparr> \<and>
   to_string \<lparr>sign = - 1, intPart = ''0'', fracPart = ''005''\<rparr> = ''-0.005'' \<and>
   parse_normalize ''-0.005'' = \<lparr>sign = - 1, intPart = ''0'', fracPart = ''005''\<rparr> \<and>
   is_valid_double_literal ''-0.005'' \<and>
   normalized (parse_normalize ''-00.00500'') \<and>
   to_string (parse_normalize ''-00.00500'') = ''-0.005'' \<and>
   parse_normalize ''-00.00500'' = \<lparr>sign = - 1, intPart = ''0'', fracPart = ''005''\<rparr> \<and>
   is_valid_double_literal ''-00.00500'' \<and>
   to_string (parse_normalize (to_string (parse_normalize ''-00.00500''))) =
     to_string (parse_normalize ''-00.00500'')"
proof -
  let ?v = "\<lparr>sign = - 1, intPart = ''0'', fracPart = ''005''\<rparr>"
  have n: "normalized ?v" by code_simp
  have t: "to_string ?v = ''-0.005''" by code_simp
  have "parse_normalize (to_string ?v) = ?v" using parse_format_roundtrip [of ?v] n by blast
  then have p: "parse_normalize ''-0.005'' = ?v" by (simp only: t)
  have "is_valid_double_literal (to_string ?v)" using parse_format_roundtrip [of ?v] n by blast
  then have vl: "is_valid_double_literal ''-0.005''" by (simp only: t)
  let ?u = "parse_normalize ''-00.00500''"
  have nu: "normalized ?u" and tu: "to_string ?u = ''-0.005''" by code_simp+
  have "to_string ?u = to_string ?v" by (simp only: tu t)
  then have uv: "?u = ?v" using parse_format_roundtrip [of _ ?u ?v] nu n by blast
  have vx: "is_valid_double_literal ''-00.00500''" by code_simp
  have idem: "to_string (parse_normalize (to_string ?u)) = to_string ?u"
    using parse_format_roundtrip [of _ _ _ "''-00.00500''"] vx by blast
  show ?thesis using n t p vl nu tu uv vx idem by blast
qed

end
